theory Spec2Isabelle
  imports Main
begin

section \<open>Collaborators of the time tick sync inspector\<close>

text \<open>
  The inspector of \<^verbatim>\<open>inspector/impls.go\<close> is built from a concurrent map, a concurrent
  set, a signal notifier, a task notifier and a wait group. The sources of the first four
  are not part of \<^verbatim>\<open>impls.go\<close>; each is given below by the contract the specification
  states for it. Every method of theirs is atomic. Logging is left out.
\<close>

text \<open>
  Modelled from the spec: the type \<^verbatim>\<open>types.PChannelInfo\<close> is declared outside
  \<^verbatim>\<open>impls.go\<close>. The spec, section 3: a channel identity is "an opaque, globally unique
  name for a physical log partition, plus arbitrary associated metadata (not interpreted
  by this core)". The code reads the field \<^verbatim>\<open>Name\<close> and uses the whole value as a map key.
\<close>

record 'm PChannelInfo =
  Name :: string
  Meta :: 'm

text \<open>
  Modelled from the spec: the interface \<^verbatim>\<open>TimeTickSyncOperator\<close> is declared outside
  \<^verbatim>\<open>impls.go\<close>. The spec, section 3: the operator "exposes its owning Channel Identity,
  and an operation Sync(cancellationContext, persisted)" with a side effect on external
  state. \<open>OpId\<close> tells two operators of one channel apart; what a \<^verbatim>\<open>Sync\<close> call does is
  the environment's choice, see \<open>sync_outcome\<close>.
\<close>

record 'm TimeTickSyncOperator =
  Channel :: "'m PChannelInfo"
  OpId :: nat

text \<open>How a call of \<^verbatim>\<open>operator.Sync\<close> ends. The call has no result value: a failed sync
  returns like a successful one; a panic unwinds the goroutine.\<close>

datatype sync_outcome = Succeeded | Failed | Panicked

text \<open>A Go call either returns or panics; the state reached is kept in both cases.\<close>

datatype 'a result = Returns 'a | Panics string

subsection \<open>\<^verbatim>\<open>typeutil.ConcurrentMap\<close>\<close>

text \<open>
  The source of \<^verbatim>\<open>typeutil.ConcurrentMap\<close> is not in \<^verbatim>\<open>impls.go\<close>. The spec, sections 3
  and 4.1, has the registry as a one-to-one mapping from channel name to operator. The
  map is kept as an association list; the order of the list is that of insertion and no
  property below depends on it.
\<close>

type_synonym ('k, 'v) ConcurrentMap = "('k \<times> 'v) list"

text \<open>Modelled from the spec: \<^verbatim>\<open>ConcurrentMap.Get\<close>, the spec's
  \<^verbatim>\<open>Lookup(name) -> operator, found\<close>; \<open>None\<close> stands for "not found".\<close>

definition Get :: "'k \<Rightarrow> ('k, 'v) ConcurrentMap \<Rightarrow> 'v option" where
  "Get k m = map_of m k"

text \<open>Modelled from the spec: \<^verbatim>\<open>ConcurrentMap.GetOrInsert\<close>, the insert of the spec's
  \<^verbatim>\<open>Register\<close>, which tells that "a name is already present" and then stores nothing. The
  result is the value now mapped, the flag \<^verbatim>\<open>loaded\<close> and the map.\<close>

definition GetOrInsert ::
  "'k \<Rightarrow> 'v \<Rightarrow> ('k, 'v) ConcurrentMap \<Rightarrow> ('v \<times> bool) \<times> ('k, 'v) ConcurrentMap" where
  "GetOrInsert k v m =
     (case map_of m k of
        Some old \<Rightarrow> ((old, True), m)
      | None \<Rightarrow> ((v, False), m @ [(k, v)]))"

text \<open>Modelled from the spec: \<^verbatim>\<open>ConcurrentMap.GetAndRemove\<close>, the removal of the spec's
  \<^verbatim>\<open>Unregister\<close>, which "removes the entry" and tells whether there was one. The result
  is the value removed, the flag \<^verbatim>\<open>loaded\<close> and the map.\<close>

definition GetAndRemove ::
  "'k \<Rightarrow> ('k, 'v) ConcurrentMap \<Rightarrow> ('v option \<times> bool) \<times> ('k, 'v) ConcurrentMap" where
  "GetAndRemove k m =
     (case map_of m k of
        Some old \<Rightarrow> ((Some old, True), filter (\<lambda>kv. fst kv \<noteq> k) m)
      | None \<Rightarrow> ((None, False), m))"

text \<open>Modelled from the spec: \<^verbatim>\<open>ConcurrentMap.Range\<close>, the spec's \<^verbatim>\<open>ForEach(visit)\<close>, a
  "snapshot-consistent iteration" whose "visiting order is unspecified": the keys it
  visits are those of the map when the call starts.\<close>

definition RangeKeys :: "('k, 'v) ConcurrentMap \<Rightarrow> 'k list" where
  "RangeKeys m = map fst m"

subsection \<open>\<^verbatim>\<open>typeutil.ConcurrentSet\<close>\<close>

text \<open>Modelled from the spec: \<^verbatim>\<open>ConcurrentSet.Insert\<close> is not in \<^verbatim>\<open>impls.go\<close>. The spec,
  section 3: "insertion is atomic and insert if absent; a failed insert (already present)
  signals skip". The result tells whether the element was inserted.\<close>

definition Insert :: "'a \<Rightarrow> 'a set \<Rightarrow> bool \<times> 'a set" where
  "Insert x W = (if x \<in> W then (False, W) else (True, insert x W))"

text \<open>Modelled from the spec: \<^verbatim>\<open>ConcurrentSet.Remove\<close> is not in \<^verbatim>\<open>impls.go\<close>. The spec,
  section 4.4: it "removes channelName from the In-Flight Set".\<close>

definition Remove :: "'a \<Rightarrow> 'a set \<Rightarrow> 'a set" where
  "Remove x W = W - {x}"

subsection \<open>\<^verbatim>\<open>syncNotifier\<close>\<close>

text \<open>
  The source of \<^verbatim>\<open>syncNotifier\<close> is not in \<^verbatim>\<open>impls.go\<close>. It holds the pending signals of
  the spec's section 4.2, keyed by the channel identity: the loop of \<^verbatim>\<open>background\<close> reads
  \<^verbatim>\<open>pchannel.Name\<close> from each key.
\<close>

type_synonym 'm syncNotifier = "('m PChannelInfo \<times> bool) list"

text \<open>Modelled from the spec: \<^verbatim>\<open>newSyncNotifier\<close>; no signal is pending at first.\<close>

definition newSyncNotifier :: "'m syncNotifier" where
  "newSyncNotifier = []"

text \<open>Modelled from the spec: \<^verbatim>\<open>syncNotifier.AddAndNotify\<close>. The spec, section 4.2: it
  "merges the flag into the Pending Signal (logical OR with any existing unresolved
  value), then ensures the consumer is woken".\<close>

definition AddAndNotify :: "'m PChannelInfo \<Rightarrow> bool \<Rightarrow> 'm syncNotifier \<Rightarrow> 'm syncNotifier" where
  "AddAndNotify c persisted n =
     (case map_of n c of
        None \<Rightarrow> n @ [(c, persisted)]
      | Some old \<Rightarrow> map (\<lambda>cq. if fst cq = c then (c, snd cq \<or> persisted) else cq) n)"

text \<open>Modelled from the spec: \<^verbatim>\<open>syncNotifier.WaitChan\<close>. The spec, section 4.2: the wake
  handle's "firing indicates at least one Pending Signal exists".\<close>

definition WaitChan_ready :: "'m syncNotifier \<Rightarrow> bool" where
  "WaitChan_ready n = (n \<noteq> [])"

text \<open>Modelled from the spec: \<^verbatim>\<open>syncNotifier.Get\<close>, the spec's \<^verbatim>\<open>DrainAll\<close>, which
  "atomically removes and returns all currently pending signals". The result is the
  signals returned and the notifier left.\<close>

definition notifier_Get :: "'m syncNotifier \<Rightarrow> ('m PChannelInfo \<times> bool) list \<times> 'm syncNotifier" where
  "notifier_Get n = (n, [])"

subsection \<open>\<^verbatim>\<open>syncutil.AsyncTaskNotifier\<close>\<close>

text \<open>
  Modelled from the spec: \<^verbatim>\<open>syncutil.AsyncTaskNotifier\<close> is not in \<^verbatim>\<open>impls.go\<close>. The
  spec, sections 4.3 and 5: a single cancellation signal that the loop observes
  (\<open>ctx_done\<close>: the channel \<^verbatim>\<open>Context().Done()\<close> is closed), and a completion signal the
  loop raises when its task exits (\<open>finish_called\<close>), on which \<^verbatim>\<open>BlockUntilFinish\<close> blocks.
\<close>

record AsyncTaskNotifier =
  ctx_done :: bool
  finish_called :: bool

text \<open>Modelled from the spec: \<^verbatim>\<open>syncutil.NewAsyncTaskNotifier\<close>; neither signal is
  raised at first.\<close>

definition NewAsyncTaskNotifier :: AsyncTaskNotifier where
  "NewAsyncTaskNotifier = \<lparr>ctx_done = False, finish_called = False\<rparr>"

text \<open>Modelled from the spec: \<^verbatim>\<open>AsyncTaskNotifier.Cancel\<close>, which "initiates
  shutdown".\<close>

definition Cancel :: "AsyncTaskNotifier \<Rightarrow> AsyncTaskNotifier" where
  "Cancel t = t\<lparr>ctx_done := True\<rparr>"

text \<open>Modelled from the spec: \<^verbatim>\<open>AsyncTaskNotifier.Finish\<close>, by which the loop is
  "signaled to waiters" as stopped.\<close>

definition Finish :: "AsyncTaskNotifier \<Rightarrow> AsyncTaskNotifier" where
  "Finish t = t\<lparr>finish_called := True\<rparr>"

section \<open>The inspector\<close>

text \<open>The struct \<^verbatim>\<open>timeTickSyncInspectorImpl\<close>, field by field; \<open>wg\<close> is the counter of
  the \<^verbatim>\<open>sync.WaitGroup\<close> of the Go library: \<^verbatim>\<open>Add\<close> and \<^verbatim>\<open>Done\<close> change it, \<^verbatim>\<open>Done\<close>
  panics when it would become negative, \<^verbatim>\<open>Wait\<close> blocks until it is zero.\<close>

record 'm timeTickSyncInspectorImpl =
  taskNotifier :: AsyncTaskNotifier
  syncNotifier :: "'m syncNotifier"
  operators :: "(string, 'm TimeTickSyncOperator) ConcurrentMap"
  wg :: int
  working :: "string set"

text \<open>The public methods (lines 35 to 64 of \<^verbatim>\<open>impls.go\<close>). A method that can panic
  returns, beside the inspector it leaves, whether it returned or panicked.\<close>

definition TriggerSync ::
  "'m PChannelInfo \<Rightarrow> bool \<Rightarrow> 'm timeTickSyncInspectorImpl \<Rightarrow> 'm timeTickSyncInspectorImpl" where
  "TriggerSync pChannelInfo persisted s =
     s\<lparr>syncNotifier := AddAndNotify pChannelInfo persisted (syncNotifier s)\<rparr>"

definition MustGetOperator ::
  "'m PChannelInfo \<Rightarrow> 'm timeTickSyncInspectorImpl \<Rightarrow> 'm TimeTickSyncOperator result" where
  "MustGetOperator pChannelInfo s =
     (case Get (Name pChannelInfo) (operators s) of
        None \<Rightarrow> Panics ''sync operator not found, critical bug in code''
      | Some operator \<Rightarrow> Returns operator)"

definition RegisterSyncOperator ::
  "'m TimeTickSyncOperator \<Rightarrow> 'm timeTickSyncInspectorImpl
     \<Rightarrow> unit result \<times> 'm timeTickSyncInspectorImpl" where
  "RegisterSyncOperator operator s =
     (case GetOrInsert (Name (Channel operator)) operator (operators s) of
        ((_, loaded), m) \<Rightarrow>
          (if loaded then Panics ''sync operator already exists, critical bug in code''
           else Returns (),
           s\<lparr>operators := m\<rparr>))"

definition UnregisterSyncOperator ::
  "'m TimeTickSyncOperator \<Rightarrow> 'm timeTickSyncInspectorImpl
     \<Rightarrow> unit result \<times> 'm timeTickSyncInspectorImpl" where
  "UnregisterSyncOperator operator s =
     (case GetAndRemove (Name (Channel operator)) (operators s) of
        ((_, loaded), m) \<Rightarrow>
          (if \<not> loaded then Panics ''sync operator not found, critical bug in code''
           else Returns (),
           s\<lparr>operators := m\<rparr>))"

section \<open>Goroutines and their interleaving\<close>

text \<open>
  The goroutine that \<^verbatim>\<open>asyncSync\<close> launches, by the action it takes next: the lookup of
  the operator; the return of the \<^verbatim>\<open>Sync\<close> call it made; the deferred \<^verbatim>\<open>wg.Done()\<close>;
  the deferred \<^verbatim>\<open>working.Remove\<close>; nothing. The flag of the two deferred steps tells that
  the goroutine is unwinding a panic of \<^verbatim>\<open>Sync\<close>.
\<close>

datatype exec_pc = AtLookup | InSync | AtWgDone bool | AtRemove bool | Finished

record exec =
  pchannelName :: string
  persisted :: bool
  pc :: exec_pc

text \<open>The caller of \<^verbatim>\<open>Close\<close> (lines 109 to 113), by the statement it executes next:
  \<^verbatim>\<open>Cancel()\<close>, \<^verbatim>\<open>BlockUntilFinish()\<close>, \<^verbatim>\<open>wg.Wait()\<close>, none. One call of \<^verbatim>\<open>Close\<close> is
  followed.\<close>

datatype close_pc = NotCalled | AtBlockUntilFinish | AtWgWait | CloseReturned

text \<open>
  The running program: the inspector, the goroutine of \<^verbatim>\<open>background\<close> (\<open>requests\<close> are
  the \<^verbatim>\<open>asyncSync\<close> calls left in the current \<^verbatim>\<open>Range\<close> or \<^verbatim>\<open>for\<close> loop, \<open>exited\<close>
  tells that it returned), every goroutine launched so far in launch order, the caller of
  \<^verbatim>\<open>Close\<close>, the \<^verbatim>\<open>Sync\<close> calls made so far, and whether a panic ended the process.
\<close>

record 'm system =
  inspector :: "'m timeTickSyncInspectorImpl"
  requests :: "(string \<times> bool) list"
  exited :: bool
  execs :: "exec list"
  closer :: close_pc
  sync_calls :: "('m TimeTickSyncOperator \<times> bool) list"
  crashed :: bool

text \<open>\<^verbatim>\<open>NewTimeTickSyncInspector\<close> (lines 17 to 25): the fields are fresh, \<open>wg\<close> and
  \<open>working\<close> have their zero values, and the loop of \<^verbatim>\<open>background\<close> is started.\<close>

definition NewTimeTickSyncInspector :: "'m system" where
  "NewTimeTickSyncInspector =
     \<lparr>inspector =
        \<lparr>taskNotifier = NewAsyncTaskNotifier, syncNotifier = newSyncNotifier,
         operators = [], wg = 0, working = {}\<rparr>,
      requests = [], exited = False, execs = [], closer = NotCalled,
      sync_calls = [], crashed = False\<rparr>"

text \<open>\<^verbatim>\<open>asyncSync\<close> (lines 91 to 107) up to the \<^verbatim>\<open>go\<close> statement: the insertion into
  \<open>working\<close>, and when it succeeds \<^verbatim>\<open>wg.Add(1)\<close> and the launch of the goroutine, which
  captures \<^verbatim>\<open>pchannelName\<close> and \<^verbatim>\<open>persisted\<close>. Only the loop of \<^verbatim>\<open>background\<close> calls
  it; the call is one action of the loop.\<close>

definition asyncSync :: "string \<Rightarrow> bool \<Rightarrow> 'm system \<Rightarrow> 'm system" where
  "asyncSync name p s =
     (case Insert name (working (inspector s)) of
        (inserted, w) \<Rightarrow>
          if \<not> inserted then s
          else s\<lparr>inspector := (inspector s)\<lparr>working := w, wg := wg (inspector s) + 1\<rparr>,
                 execs := execs s @ [\<lparr>pchannelName = name, persisted = p, pc = AtLookup\<rparr>]\<rparr>)"

text \<open>
  The atomic actions of the program. The calls of the public methods; the three steps of
  \<^verbatim>\<open>Close\<close>; the three cases of the \<^verbatim>\<open>select\<close> of \<^verbatim>\<open>background\<close> and one \<^verbatim>\<open>asyncSync\<close>
  call of its current loop (Go fixes neither the order of \<^verbatim>\<open>Range\<close> nor that of a
  \<^verbatim>\<open>for range\<close> over a map, so the action names the position of the request it takes);
  the steps of the goroutine with a given launch number.
\<close>

datatype 'm event =
    CallTriggerSync "'m PChannelInfo" bool
  | CallRegisterSyncOperator "'m TimeTickSyncOperator"
  | CallUnregisterSyncOperator "'m TimeTickSyncOperator"
  | CallMustGetOperator "'m PChannelInfo"
  | CloseCancel
  | CloseBlockUntilFinish
  | CloseWgWait
  | SelectDone
  | SelectTicker
  | SelectWaitChan
  | LoopAsyncSync nat
  | ExecLookup nat
  | ExecSyncEnd nat sync_outcome
  | ExecWgDone nat
  | ExecRemove nat

text \<open>Goroutine \<open>i\<close> moves on to \<open>c\<close>.\<close>

definition set_pc :: "nat \<Rightarrow> exec_pc \<Rightarrow> exec list \<Rightarrow> exec list" where
  "set_pc i c xs = xs[i := (xs ! i)\<lparr>pc := c\<rparr>]"

text \<open>The loop of \<^verbatim>\<open>background\<close> is at its \<^verbatim>\<open>select\<close>.\<close>

definition at_select :: "'m system \<Rightarrow> bool" where
  "at_select s = (\<not> exited s \<and> requests s = [])"

text \<open>
  \<open>fire e s\<close> is the state after the action \<open>e\<close>, or \<open>None\<close> when \<open>e\<close> cannot happen in
  \<open>s\<close> (a blocked wait, a goroutine that is elsewhere). A panic in a caller or in a
  goroutine ends the process, for nothing in \<^verbatim>\<open>impls.go\<close> recovers; a panic of \<^verbatim>\<open>Sync\<close>
  does so after the deferred function of the goroutine has run. The \<^verbatim>\<open>select\<close> of
  \<^verbatim>\<open>background\<close> (lines 72 to 87) may take any case that is ready; the ticker may fire at
  any time. On its return the loop runs its deferred \<^verbatim>\<open>taskNotifier.Finish\<close>.
\<close>

fun fire :: "'m event \<Rightarrow> 'm system \<Rightarrow> 'm system option" where
  "fire (CallTriggerSync pChannelInfo p) s =
     Some (s\<lparr>inspector := TriggerSync pChannelInfo p (inspector s)\<rparr>)"
| "fire (CallRegisterSyncOperator operator) s =
     (case RegisterSyncOperator operator (inspector s) of
        (Returns _, i) \<Rightarrow> Some (s\<lparr>inspector := i\<rparr>)
      | (Panics _, i) \<Rightarrow> Some (s\<lparr>inspector := i, crashed := True\<rparr>))"
| "fire (CallUnregisterSyncOperator operator) s =
     (case UnregisterSyncOperator operator (inspector s) of
        (Returns _, i) \<Rightarrow> Some (s\<lparr>inspector := i\<rparr>)
      | (Panics _, i) \<Rightarrow> Some (s\<lparr>inspector := i, crashed := True\<rparr>))"
| "fire (CallMustGetOperator pChannelInfo) s =
     (case MustGetOperator pChannelInfo (inspector s) of
        Returns _ \<Rightarrow> Some s
      | Panics _ \<Rightarrow> Some (s\<lparr>crashed := True\<rparr>))"
| "fire CloseCancel s =
     (if closer s = NotCalled
      then Some (s\<lparr>inspector := (inspector s)\<lparr>taskNotifier := Cancel (taskNotifier (inspector s))\<rparr>,
                   closer := AtBlockUntilFinish\<rparr>)
      else None)"
| "fire CloseBlockUntilFinish s =
     (if closer s = AtBlockUntilFinish \<and> finish_called (taskNotifier (inspector s))
      then Some (s\<lparr>closer := AtWgWait\<rparr>)
      else None)"
| "fire CloseWgWait s =
     (if closer s = AtWgWait \<and> wg (inspector s) = 0
      then Some (s\<lparr>closer := CloseReturned\<rparr>)
      else None)"
| "fire SelectDone s =
     (if at_select s \<and> ctx_done (taskNotifier (inspector s))
      then Some (s\<lparr>inspector := (inspector s)\<lparr>taskNotifier := Finish (taskNotifier (inspector s))\<rparr>,
                   exited := True\<rparr>)
      else None)"
| "fire SelectTicker s =
     (if at_select s
      then Some (s\<lparr>requests := map (\<lambda>name. (name, False)) (RangeKeys (operators (inspector s)))\<rparr>)
      else None)"
| "fire SelectWaitChan s =
     (if at_select s \<and> WaitChan_ready (syncNotifier (inspector s))
      then (case notifier_Get (syncNotifier (inspector s)) of
              (signals, n) \<Rightarrow>
                Some (s\<lparr>inspector := (inspector s)\<lparr>syncNotifier := n\<rparr>,
                        requests := map (\<lambda>sig. (Name (fst sig), snd sig)) signals\<rparr>))
      else None)"
| "fire (LoopAsyncSync k) s =
     (if \<not> exited s \<and> k < length (requests s)
      then Some (asyncSync (fst (requests s ! k)) (snd (requests s ! k))
                   (s\<lparr>requests := take k (requests s) @ drop (Suc k) (requests s)\<rparr>))
      else None)"
| "fire (ExecLookup i) s =
     (if i < length (execs s) \<and> pc (execs s ! i) = AtLookup
      then (case Get (pchannelName (execs s ! i)) (operators (inspector s)) of
              Some operator \<Rightarrow>
                Some (s\<lparr>execs := set_pc i InSync (execs s),
                        sync_calls := sync_calls s @ [(operator, persisted (execs s ! i))]\<rparr>)
            | None \<Rightarrow> Some (s\<lparr>execs := set_pc i (AtWgDone False) (execs s)\<rparr>))
      else None)"
| "fire (ExecSyncEnd i out) s =
     (if i < length (execs s) \<and> pc (execs s ! i) = InSync
      then Some (s\<lparr>execs := set_pc i (AtWgDone (out = Panicked)) (execs s)\<rparr>)
      else None)"
| "fire (ExecWgDone i) s =
     (if i < length (execs s)
      then (case pc (execs s ! i) of
              AtWgDone panicking \<Rightarrow>
                if wg (inspector s) - 1 < 0 then Some (s\<lparr>crashed := True\<rparr>)
                else Some (s\<lparr>inspector := (inspector s)\<lparr>wg := wg (inspector s) - 1\<rparr>,
                             execs := set_pc i (AtRemove panicking) (execs s)\<rparr>)
            | _ \<Rightarrow> None)
      else None)"
| "fire (ExecRemove i) s =
     (if i < length (execs s)
      then (case pc (execs s ! i) of
              AtRemove panicking \<Rightarrow>
                Some (s\<lparr>inspector := (inspector s)
                          \<lparr>working := Remove (pchannelName (execs s ! i)) (working (inspector s))\<rparr>,
                        execs := set_pc i Finished (execs s),
                        crashed := panicking\<rparr>)
            | _ \<Rightarrow> None)
      else None)"

text \<open>Nothing happens in a process that a panic has ended.\<close>

definition step :: "'m event \<Rightarrow> 'm system \<Rightarrow> 'm system option" where
  "step e s = (if crashed s then None else fire e s)"

text \<open>A run of the program: the actions of a list, one after the other; \<open>None\<close> when
  one of them cannot happen.\<close>

fun run :: "'m event list \<Rightarrow> 'm system \<Rightarrow> 'm system option" where
  "run [] s = Some s"
| "run (e # es) s = (case step e s of None \<Rightarrow> None | Some s' \<Rightarrow> run es s')"

text \<open>A goroutine is in flight until its deferred function has run to its end.\<close>

definition in_flight :: "exec \<Rightarrow> bool" where
  "in_flight x = (pc x \<noteq> Finished)"

text \<open>A goroutine whose \<^verbatim>\<open>Sync\<close> call, if it makes one, has not returned yet.\<close>

definition before_return :: "exec \<Rightarrow> bool" where
  "before_return x = (pc x = AtLookup \<or> pc x = InSync)"

section \<open>Invariants of the running program\<close>

text \<open>A goroutine that has been added to the wait group and has not called
  \<^verbatim>\<open>wg.Done()\<close> yet.\<close>

definition holds_wg :: "exec \<Rightarrow> bool" where
  "holds_wg x = (case pc x of AtLookup \<Rightarrow> True | InSync \<Rightarrow> True | AtWgDone _ \<Rightarrow> True | _ \<Rightarrow> False)"

text \<open>The channel names of the goroutines in flight, in launch order.\<close>

definition flying :: "exec list \<Rightarrow> string list" where
  "flying xs = map pchannelName (filter in_flight xs)"

text \<open>No two goroutines in flight have the same channel name, and the set \<open>working\<close>
  holds exactly the names of the goroutines in flight.\<close>

definition flight_inv :: "'m system \<Rightarrow> bool" where
  "flight_inv s \<longleftrightarrow>
     distinct (flying (execs s)) \<and> working (inspector s) = set (flying (execs s))"

text \<open>The wait group counts the goroutines that have not called \<^verbatim>\<open>wg.Done()\<close>.\<close>

definition wg_inv :: "'m system \<Rightarrow> bool" where
  "wg_inv s \<longleftrightarrow> wg (inspector s) = int (length (filter holds_wg (execs s)))"

text \<open>The loop leaves no request behind when it returns; \<^verbatim>\<open>Finish\<close> is called by the
  returning loop only; \<^verbatim>\<open>Close\<close> passes \<^verbatim>\<open>BlockUntilFinish\<close> after \<^verbatim>\<open>Finish\<close> only,
  and returns with the wait group at zero.\<close>

definition close_inv :: "'m system \<Rightarrow> bool" where
  "close_inv s \<longleftrightarrow>
     (exited s \<longrightarrow> requests s = []) \<and>
     (finish_called (taskNotifier (inspector s)) \<longrightarrow> exited s) \<and>
     (closer s = AtWgWait \<or> closer s = CloseReturned \<longrightarrow>
        finish_called (taskNotifier (inspector s))) \<and>
     (closer s = CloseReturned \<longrightarrow> wg (inspector s) = 0)"

text \<open>The registry has one entry for a name at most.\<close>

definition reg_inv :: "'m system \<Rightarrow> bool" where
  "reg_inv s \<longleftrightarrow> distinct (map fst (operators (inspector s)))"

definition invariant :: "'m system \<Rightarrow> bool" where
  "invariant s \<longleftrightarrow> flight_inv s \<and> wg_inv s \<and> close_inv s \<and> reg_inv s"

subsection \<open>Two channels and their operators, for the examples\<close>

definition chA :: "nat PChannelInfo" where
  "chA = \<lparr>Name = ''A'', Meta = 0\<rparr>"

definition chB :: "nat PChannelInfo" where
  "chB = \<lparr>Name = ''B'', Meta = 0\<rparr>"

definition opA :: "nat TimeTickSyncOperator" where
  "opA = \<lparr>Channel = chA, OpId = 1\<rparr>"

definition opA2 :: "nat TimeTickSyncOperator" where
  "opA2 = \<lparr>Channel = chA, OpId = 2\<rparr>"

definition opB :: "nat TimeTickSyncOperator" where
  "opB = \<lparr>Channel = chB, OpId = 3\<rparr>"

text \<open>An inspector on which only \<open>opA\<close> is registered.\<close>

definition inspA :: "nat timeTickSyncInspectorImpl" where
  "inspA = (inspector NewTimeTickSyncInspector)\<lparr>operators := [(''A'', opA)]\<rparr>"

text \<open>The scenario of the spec's section 8: while the execution that the first trigger
  of \<open>A\<close> caused is still in its \<^verbatim>\<open>Sync\<close> call, a second trigger of \<open>A\<close> is drained; its
  request is the next \<^verbatim>\<open>asyncSync\<close> call of the loop.\<close>

definition second_trigger_dropped :: "nat event list" where
  "second_trigger_dropped =
     [CallRegisterSyncOperator opA, CallTriggerSync chA False, SelectWaitChan, LoopAsyncSync 0,
      ExecLookup 0, CallTriggerSync chA True, SelectWaitChan]"

text \<open>A run in which \<^verbatim>\<open>Close\<close> returns: the loop observes the cancellation while the
  execution for \<open>A\<close> is in its \<^verbatim>\<open>Sync\<close> call, and \<^verbatim>\<open>wg.Wait()\<close> is passed after that call
  has returned and the goroutine has called \<^verbatim>\<open>wg.Done()\<close>. Then what may still happen.\<close>

definition closing :: "nat event list" where
  "closing =
     [CallRegisterSyncOperator opA, CallTriggerSync chA True, SelectWaitChan, LoopAsyncSync 0,
      ExecLookup 0, CloseCancel, SelectDone, CloseBlockUntilFinish,
      ExecSyncEnd 0 Succeeded, ExecWgDone 0, CloseWgWait]"

definition after_close :: "nat event list" where
  "after_close = [CallTriggerSync chA False, ExecRemove 0]"

text \<open>The actions of goroutine \<open>i\<close> from its launch to its end, one after the other; the
  \<^verbatim>\<open>Sync\<close> call, when the operator is found, ends as \<open>out\<close> says.\<close>

definition exec_schedule :: "nat \<Rightarrow> sync_outcome \<Rightarrow> 'm system \<Rightarrow> 'm event list" where
  "exec_schedule i out s =
     (case Get (pchannelName (execs s ! i)) (operators (inspector s)) of
        None \<Rightarrow> [ExecLookup i, ExecWgDone i, ExecRemove i]
      | Some _ \<Rightarrow> [ExecLookup i, ExecSyncEnd i out, ExecWgDone i, ExecRemove i])"

text \<open>Runs up to the launch of the execution for \<open>A\<close>; up to its deferred
  \<^verbatim>\<open>working.Remove\<close>; and with \<open>A\<close> unregistered between the launch and the lookup.\<close>

definition launched_A :: "nat event list" where
  "launched_A =
     [CallRegisterSyncOperator opA, CallTriggerSync chA True, SelectWaitChan, LoopAsyncSync 0]"

definition sync_returned_A :: "nat event list" where
  "sync_returned_A = launched_A @ [ExecLookup 0, ExecSyncEnd 0 Failed, ExecWgDone 0]"

definition unregistered_before_lookup :: "nat event list" where
  "unregistered_before_lookup = launched_A @ [CallUnregisterSyncOperator opA]"

text \<open>A trigger for the channel \<open>A\<close> while only \<open>B\<close> is registered, and what follows it.\<close>

definition only_B_registered :: "nat event list" where
  "only_B_registered = [CallRegisterSyncOperator opB]"

definition trigger_unregistered_A :: "nat event list" where
  "trigger_unregistered_A =
     [CallTriggerSync chA True, SelectWaitChan, LoopAsyncSync 0,
      ExecLookup 0, ExecWgDone 0, ExecRemove 0]"

text \<open>The scenario of the spec's section 8: \<open>A\<close> and \<open>B\<close> are registered, then \<open>A\<close> is
  triggered with \<open>true\<close> and with \<open>false\<close> before the loop drains the signals.\<close>

definition registered_AB :: "nat event list" where
  "registered_AB = [CallRegisterSyncOperator opA, CallRegisterSyncOperator opB]"

definition two_triggers_A :: "nat event list" where
  "two_triggers_A =
     [CallTriggerSync chA True, CallTriggerSync chA False, SelectWaitChan, LoopAsyncSync 0,
      ExecLookup 0]"

text \<open>The ticker case of the loop taken in \<open>s\<close>, followed by every \<^verbatim>\<open>asyncSync\<close> call
  of its \<^verbatim>\<open>Range\<close> and by the lookup of every goroutine these calls launch.\<close>

definition tick_schedule :: "'m system \<Rightarrow> 'm event list" where
  "tick_schedule s =
     SelectTicker #
     replicate (length (operators (inspector s))) (LoopAsyncSync 0) @
     map ExecLookup [length (execs s) ..< length (execs s) + length (operators (inspector s))]"

text \<open>A goroutine for a channel name, with its flag, at a given point.\<close>

definition launched :: "bool \<Rightarrow> exec_pc \<Rightarrow> string \<Rightarrow> exec" where
  "launched p c name = \<lparr>pchannelName = name, persisted = p, pc = c\<rparr>"

lemmas example_defs = chA_def chB_def opA_def opB_def
  NewTimeTickSyncInspector_def NewAsyncTaskNotifier_def newSyncNotifier_def

lemmas run_defs = step_def asyncSync_def Insert_def Remove_def set_pc_def at_select_def
  TriggerSync_def AddAndNotify_def WaitChan_ready_def notifier_Get_def Cancel_def Finish_def
  RegisterSyncOperator_def UnregisterSyncOperator_def MustGetOperator_def
  Get_def GetOrInsert_def GetAndRemove_def RangeKeys_def

section \<open>The invariants hold in every reachable state\<close>

lemma length_set_pc [simp]: "length (set_pc i c xs) = length xs"
  by (simp add: set_pc_def)

lemma count_list_update:
  "i < length xs \<Longrightarrow>
     int (length (filter P (xs[i := y]))) =
       int (length (filter P xs)) - (if P (xs ! i) then 1 else 0) + (if P y then 1 else 0)"
proof -
  have "i < length xs \<Longrightarrow> length (filter P (xs[i := y])) + (if P (xs ! i) then 1 else 0) =
       length (filter P xs) + (if P y then 1 else 0)"
  proof (induction xs arbitrary: i)
    case Nil
    then show ?case by simp
  next
    case (Cons a xs)
    show ?case
    proof (cases i)
      case 0
      then show ?thesis by simp
    next
      case (Suc j)
      with Cons.prems have "j < length xs" by simp
      from Cons.IH [OF this] Suc show ?thesis by simp
    qed
  qed
  moreover assume "i < length xs"
  ultimately show ?thesis by (simp split: if_splits)
qed

lemma count_set_pc:
  "i < length xs \<Longrightarrow>
     int (length (filter P (set_pc i c xs))) =
       int (length (filter P xs)) - (if P (xs ! i) then 1 else 0)
         + (if P ((xs ! i)\<lparr>pc := c\<rparr>) then 1 else 0)"
  unfolding set_pc_def by (rule count_list_update)

lemma asyncSync_cases:
  "asyncSync name p s =
     (if name \<in> working (inspector s) then s
      else s\<lparr>inspector := (inspector s)\<lparr>working := insert name (working (inspector s)),
                                         wg := wg (inspector s) + 1\<rparr>,
             execs := execs s @ [\<lparr>pchannelName = name, persisted = p, pc = AtLookup\<rparr>]\<rparr>)"
  by (simp add: asyncSync_def Insert_def)

lemmas fire_defs = at_select_def asyncSync_cases TriggerSync_def
  RegisterSyncOperator_def UnregisterSyncOperator_def MustGetOperator_def Cancel_def Finish_def
  notifier_Get_def

lemma close_inv_fire: "fire e s = Some s' \<Longrightarrow> close_inv s \<Longrightarrow> close_inv s'"
  by (induction e s rule: fire.induct)
    (clarsimp simp: close_inv_def fire_defs
      split: if_splits option.splits prod.splits result.splits exec_pc.splits)+

lemma wg_inv_fire: "fire e s = Some s' \<Longrightarrow> wg_inv s \<Longrightarrow> wg_inv s'"
  by (induction e s rule: fire.induct)
    (clarsimp simp: wg_inv_def count_set_pc holds_wg_def fire_defs
      split: if_splits option.splits prod.splits result.splits exec_pc.splits)+

lemma set_pc_split:
  assumes "i < length xs"
  obtains A B where "xs = A @ (xs ! i) # B" and "set_pc i c xs = A @ (xs ! i)\<lparr>pc := c\<rparr> # B"
proof
  show "xs = take i xs @ (xs ! i) # drop (Suc i) xs"
    using assms by (rule id_take_nth_drop)
  show "set_pc i c xs = take i xs @ (xs ! i)\<lparr>pc := c\<rparr> # drop (Suc i) xs"
    using assms by (simp add: set_pc_def upd_conv_take_nth_drop)
qed

lemma flying_set_pc:
  assumes "i < length xs" and "pc (xs ! i) \<noteq> Finished" and "c \<noteq> Finished"
  shows "flying (set_pc i c xs) = flying xs"
proof -
  from assms(1) obtain A B where xs: "xs = A @ (xs ! i) # B"
    and upd: "set_pc i c xs = A @ (xs ! i)\<lparr>pc := c\<rparr> # B"
    by (rule set_pc_split)
  have "flying (A @ (xs ! i)\<lparr>pc := c\<rparr> # B) = flying (A @ (xs ! i) # B)"
    using assms(2,3) by (simp add: flying_def in_flight_def)
  then show ?thesis using xs upd by simp
qed

lemma flying_finish:
  assumes "i < length xs" and "pc (xs ! i) \<noteq> Finished" and "distinct (flying xs)"
  shows "distinct (flying (set_pc i Finished xs)) \<and>
    set (flying (set_pc i Finished xs)) = set (flying xs) - {pchannelName (xs ! i)}"
proof -
  from assms(1) obtain A B where xs: "xs = A @ (xs ! i) # B"
    and upd: "set_pc i Finished xs = A @ (xs ! i)\<lparr>pc := Finished\<rparr> # B"
    by (rule set_pc_split)
  from assms(3) have "distinct (flying (A @ (xs ! i) # B))"
    using xs by simp
  with assms(2)
  have "distinct (flying (A @ (xs ! i)\<lparr>pc := Finished\<rparr> # B)) \<and>
    set (flying (A @ (xs ! i)\<lparr>pc := Finished\<rparr> # B)) =
      set (flying (A @ (xs ! i) # B)) - {pchannelName (xs ! i)}"
    by (auto simp: flying_def in_flight_def)
  then show ?thesis using xs upd by simp
qed

lemma flying_launch:
  "flying (xs @ [\<lparr>pchannelName = n, persisted = p, pc = AtLookup\<rparr>]) = flying xs @ [n]"
  by (simp add: flying_def in_flight_def)


lemma flight_inv_fire: "fire e s = Some s' \<Longrightarrow> flight_inv s \<Longrightarrow> flight_inv s'"
  by (induction e s rule: fire.induct)
    (clarsimp simp: flight_inv_def flying_set_pc flying_finish flying_launch Remove_def fire_defs
      split: if_splits option.splits prod.splits result.splits exec_pc.splits)+

lemma reg_inv_fire: "fire e s = Some s' \<Longrightarrow> reg_inv s \<Longrightarrow> reg_inv s'"
  by (induction e s rule: fire.induct)
    (clarsimp simp: reg_inv_def fire_defs GetOrInsert_def GetAndRemove_def distinct_map_filter map_of_eq_None_iff
      split: if_splits option.splits prod.splits result.splits exec_pc.splits)+

lemma invariant_init: "invariant NewTimeTickSyncInspector"
  by (simp add: invariant_def flight_inv_def wg_inv_def close_inv_def reg_inv_def flying_def
      NewTimeTickSyncInspector_def NewAsyncTaskNotifier_def)

lemma invariant_step: "step e s = Some s' \<Longrightarrow> invariant s \<Longrightarrow> invariant s'"
  unfolding invariant_def step_def
  by (auto split: if_splits intro: flight_inv_fire wg_inv_fire close_inv_fire reg_inv_fire)

lemma invariant_run: "run es s = Some s' \<Longrightarrow> invariant s \<Longrightarrow> invariant s'"
  by (induction es arbitrary: s) (auto split: option.splits dest: invariant_step)

lemma reachable_invariant: "run es NewTimeTickSyncInspector = Some s \<Longrightarrow> invariant s"
  by (rule invariant_run [OF _ invariant_init])

lemma distinct_map_count:
  "distinct (map f ys) \<Longrightarrow> length (filter (\<lambda>y. f y = c) ys) \<le> 1"
  by (induction ys) (auto simp: filter_empty_conv image_iff)

section \<open>The operator registry\<close>

lemma map_of_filter_key:
  "map_of (filter (\<lambda>kv. fst kv \<noteq> k) m) k' = (if k' = k then None else map_of m k')"
  by (induction m) auto

text \<open>
  Claim C4. \<^verbatim>\<open>RegisterSyncOperator\<close> stores the operator under the name of its channel
  and returns, when no operator is registered under that name; the other names keep
  their operators. When the name is present the call panics, which ends the process, and
  the inspector at the panic is the one before the call: the operator registered first
  stays mapped.
\<close>

theorem RegisterSyncOperator_stores_or_panics:
  "(Get (Name (Channel operator)) (operators s) = None \<longrightarrow>
      fst (RegisterSyncOperator operator s) = Returns () \<and>
      (\<forall>k. Get k (operators (snd (RegisterSyncOperator operator s))) =
         (if k = Name (Channel operator) then Some operator else Get k (operators s)))) \<and>
   (Get (Name (Channel operator)) (operators s) \<noteq> None \<longrightarrow>
      (\<exists>msg. fst (RegisterSyncOperator operator s) = Panics msg) \<and>
      snd (RegisterSyncOperator operator s) = s \<and>
      (\<forall>sys. inspector sys = s \<and> \<not> crashed sys \<longrightarrow>
         step (CallRegisterSyncOperator operator) sys = Some (sys\<lparr>crashed := True\<rparr>)))"
  by (auto simp: RegisterSyncOperator_def GetOrInsert_def Get_def step_def map_add_def
      split: option.splits)

theorem RegisterSyncOperator_stores_or_panics_witness:
  "Get ''B'' (operators inspA) = None \<and>
   fst (RegisterSyncOperator opB inspA) = Returns () \<and>
   Get ''B'' (operators (snd (RegisterSyncOperator opB inspA))) = Some opB \<and>
   Get ''A'' (operators (snd (RegisterSyncOperator opB inspA))) = Some opA \<and>
   Get ''A'' (operators inspA) \<noteq> None \<and>
   (\<exists>msg. fst (RegisterSyncOperator opA2 inspA) = Panics msg) \<and>
   snd (RegisterSyncOperator opA2 inspA) = inspA \<and>
   Get ''A'' (operators (snd (RegisterSyncOperator opA2 inspA))) = Some opA"
  using RegisterSyncOperator_stores_or_panics [of opB inspA]
    RegisterSyncOperator_stores_or_panics [of opA2 inspA]
  by (simp add: example_defs opA2_def inspA_def Get_def)

text \<open>
  Claim C8. \<^verbatim>\<open>UnregisterSyncOperator\<close> removes the entry of the operator's channel name
  and returns, when the name is present; the other names keep their operators. When the
  name is absent the call panics, which ends the process.
\<close>

theorem UnregisterSyncOperator_removes_or_panics:
  "(Get (Name (Channel operator)) (operators s) \<noteq> None \<longrightarrow>
      fst (UnregisterSyncOperator operator s) = Returns () \<and>
      (\<forall>k. Get k (operators (snd (UnregisterSyncOperator operator s))) =
         (if k = Name (Channel operator) then None else Get k (operators s)))) \<and>
   (Get (Name (Channel operator)) (operators s) = None \<longrightarrow>
      (\<exists>msg. fst (UnregisterSyncOperator operator s) = Panics msg) \<and>
      (\<forall>sys. inspector sys = s \<and> \<not> crashed sys \<longrightarrow>
         step (CallUnregisterSyncOperator operator) sys = Some (sys\<lparr>crashed := True\<rparr>)))"
  by (auto simp: UnregisterSyncOperator_def GetAndRemove_def Get_def step_def map_of_filter_key
      split: option.splits)

theorem UnregisterSyncOperator_removes_or_panics_witness:
  "Get ''A'' (operators inspA) \<noteq> None \<and>
   fst (UnregisterSyncOperator opA inspA) = Returns () \<and>
   Get ''A'' (operators (snd (UnregisterSyncOperator opA inspA))) = None \<and>
   Get ''B'' (operators inspA) = None \<and>
   (\<exists>msg. fst (UnregisterSyncOperator opB inspA) = Panics msg)"
  using UnregisterSyncOperator_removes_or_panics [of opA inspA]
    UnregisterSyncOperator_removes_or_panics [of opB inspA]
  by (simp add: example_defs inspA_def Get_def)

text \<open>
  Claim C9. \<^verbatim>\<open>MustGetOperator\<close> returns the operator registered under the name of the
  channel when there is one, and it panics exactly when there is none. Its result is an
  operator or a panic: it has no error value.
\<close>

theorem MustGetOperator_returns_or_panics:
  "(\<forall>operator. Get (Name pChannelInfo) (operators s) = Some operator \<longrightarrow>
      MustGetOperator pChannelInfo s = Returns operator) \<and>
   ((\<exists>msg. MustGetOperator pChannelInfo s = Panics msg) \<longleftrightarrow>
      Get (Name pChannelInfo) (operators s) = None)"
  by (auto simp: MustGetOperator_def split: option.splits)

theorem MustGetOperator_returns_or_panics_witness:
  "Get (Name chA) (operators inspA) = Some opA \<and>
   MustGetOperator chA inspA = Returns opA \<and>
   Get (Name chB) (operators inspA) = None \<and>
   (\<exists>msg. MustGetOperator chB inspA = Panics msg)"
  using MustGetOperator_returns_or_panics [of chA inspA]
    MustGetOperator_returns_or_panics [of chB inspA]
  by (simp add: example_defs inspA_def Get_def)

section \<open>The in-flight set\<close>

text \<open>
  Claim C1. In every state the program reaches, at most one goroutine launched for a
  channel name \<open>C\<close> is in flight, and \<open>C\<close> is in the set \<open>working\<close> exactly when there is
  one. A call of \<^verbatim>\<open>asyncSync\<close> for a name that is in the set \<open>working\<close> leaves the whole
  state as it is: it launches nothing and keeps no record of the request; the loop that
  makes the call goes on with its other requests, and this one is gone.
\<close>

theorem at_most_one_in_flight:
  assumes "run es NewTimeTickSyncInspector = Some s"
  shows "length (filter (\<lambda>x. pchannelName x = C \<and> in_flight x) (execs s)) \<le> 1 \<and>
    (C \<in> working (inspector s) \<longleftrightarrow> (\<exists>x \<in> set (execs s). pchannelName x = C \<and> in_flight x)) \<and>
    (C \<in> working (inspector s) \<longrightarrow> asyncSync C p s = s) \<and>
    (C \<in> working (inspector s) \<and> \<not> crashed s \<and> \<not> exited s \<and>
       k < length (requests s) \<and> fst (requests s ! k) = C \<longrightarrow>
       step (LoopAsyncSync k) s =
         Some (s\<lparr>requests := take k (requests s) @ drop (Suc k) (requests s)\<rparr>))"
proof -
  from assms have inv: "flight_inv s"
    using reachable_invariant invariant_def by blast
  then have "distinct (map pchannelName (filter in_flight (execs s)))"
    by (simp add: flight_inv_def flying_def)
  then have "length (filter (\<lambda>x. pchannelName x = C) (filter in_flight (execs s))) \<le> 1"
    by (rule distinct_map_count)
  then have one: "length (filter (\<lambda>x. pchannelName x = C \<and> in_flight x) (execs s)) \<le> 1"
    by (simp add: conj_commute)
  from inv have mem: "C \<in> working (inspector s) \<longleftrightarrow>
      (\<exists>x \<in> set (execs s). pchannelName x = C \<and> in_flight x)"
    by (auto simp: flight_inv_def flying_def)
  have dropped: "C \<in> working (inspector s) \<longrightarrow> asyncSync C p s = s"
    by (simp add: asyncSync_cases)
  have "C \<in> working (inspector s) \<and> \<not> crashed s \<and> \<not> exited s \<and>
       k < length (requests s) \<and> fst (requests s ! k) = C \<longrightarrow>
       step (LoopAsyncSync k) s =
         Some (s\<lparr>requests := take k (requests s) @ drop (Suc k) (requests s)\<rparr>)"
    by (simp add: step_def asyncSync_cases)
  with one mem dropped show ?thesis by blast
qed

theorem at_most_one_in_flight_witness:
  "run second_trigger_dropped NewTimeTickSyncInspector \<noteq> None \<and>
   requests (the (run second_trigger_dropped NewTimeTickSyncInspector)) = [(''A'', True)] \<and>
   ''A'' \<in> working (inspector (the (run second_trigger_dropped NewTimeTickSyncInspector))) \<and>
   length (filter (\<lambda>x. pchannelName x = ''A'' \<and> in_flight x)
     (execs (the (run second_trigger_dropped NewTimeTickSyncInspector)))) \<le> 1 \<and>
   asyncSync ''A'' True (the (run second_trigger_dropped NewTimeTickSyncInspector)) =
     the (run second_trigger_dropped NewTimeTickSyncInspector) \<and>
   step (LoopAsyncSync 0) (the (run second_trigger_dropped NewTimeTickSyncInspector)) =
     Some ((the (run second_trigger_dropped NewTimeTickSyncInspector))\<lparr>requests := []\<rparr>)"
proof -
  have r: "run second_trigger_dropped NewTimeTickSyncInspector =
      Some (the (run second_trigger_dropped NewTimeTickSyncInspector))"
    by (simp add: second_trigger_dropped_def example_defs run_defs)
  from r at_most_one_in_flight [OF r, of "''A''" True 0] show ?thesis
    by (simp add: second_trigger_dropped_def example_defs run_defs)
qed

section \<open>Shutdown\<close>

lemma exited_fire:
  "fire e s = Some s' \<Longrightarrow> exited s \<Longrightarrow> requests s = [] \<Longrightarrow>
     exited s' \<and> requests s' = [] \<and> length (execs s') = length (execs s)"
  by (induction e s rule: fire.induct)
    (clarsimp simp: fire_defs
      split: if_splits option.splits prod.splits result.splits exec_pc.splits)+

lemma exited_run:
  "run es s = Some s' \<Longrightarrow> exited s \<Longrightarrow> requests s = [] \<Longrightarrow>
     exited s' \<and> requests s' = [] \<and> length (execs s') = length (execs s)"
proof (induction es arbitrary: s)
  case Nil
  then show ?case by simp
next
  case (Cons e es)
  from Cons.prems(1) obtain s1 where s1: "fire e s = Some s1" and rest: "run es s1 = Some s'"
    by (auto simp: step_def split: option.splits if_splits)
  from exited_fire [OF s1 Cons.prems(2,3)] Cons.IH [OF rest] show ?case by simp
qed

lemma set_set_pc: "set (set_pc i c xs) \<subseteq> insert ((xs ! i)\<lparr>pc := c\<rparr>) (set xs)"
  unfolding set_pc_def by (rule set_update_subset_insert)

lemma before_return_set_pcD:
  "x \<in> set (set_pc i c xs) \<Longrightarrow> before_return x \<Longrightarrow>
     c = AtLookup \<or> c = InSync \<or> (\<exists>y\<in>set xs. before_return y)"
  using set_set_pc [of i c xs] by (auto simp: before_return_def)

lemma returned_nth:
  assumes "\<forall>x\<in>set xs. \<not> before_return x" and "i < length xs"
  shows "pc (xs ! i) \<noteq> AtLookup" and "pc (xs ! i) \<noteq> InSync"
  using assms by (auto simp: before_return_def)

lemma quiet_fire:
  "fire e s = Some s' \<Longrightarrow> exited s \<Longrightarrow> requests s = [] \<Longrightarrow>
     \<forall>x\<in>set (execs s). \<not> before_return x \<Longrightarrow>
     (\<forall>x\<in>set (execs s'). \<not> before_return x) \<and> sync_calls s' = sync_calls s"
  by (induction e s rule: fire.induct)
    (clarsimp simp: fire_defs returned_nth dest!: before_return_set_pcD
      split: if_splits option.splits prod.splits result.splits exec_pc.splits)+


lemma quiet_run:
  "run es s = Some s' \<Longrightarrow> exited s \<Longrightarrow> requests s = [] \<Longrightarrow>
     \<forall>x\<in>set (execs s). \<not> before_return x \<Longrightarrow>
     (\<forall>x\<in>set (execs s'). \<not> before_return x) \<and> sync_calls s' = sync_calls s"
proof (induction es arbitrary: s)
  case Nil
  then show ?case by simp
next
  case (Cons e es)
  from Cons.prems(1) obtain s1 where s1: "fire e s = Some s1" and rest: "run es s1 = Some s'"
    by (auto simp: step_def split: option.splits if_splits)
  from exited_fire [OF s1 Cons.prems(2,3)] quiet_fire [OF s1 Cons.prems(2,3,4)]
    Cons.IH [OF rest]
  show ?case by simp
qed

lemma wg_zero_returned:
  assumes "wg_inv s" and "wg (inspector s) = 0"
  shows "\<forall>x\<in>set (execs s). \<not> before_return x"
proof -
  from assms have "filter holds_wg (execs s) = []"
    by (simp add: wg_inv_def)
  then have "\<forall>x\<in>set (execs s). \<not> holds_wg x"
    by (simp add: filter_empty_conv)
  then show ?thesis
    by (auto simp: holds_wg_def before_return_def)
qed

text \<open>
  Claim C3. Once the loop of \<^verbatim>\<open>background\<close> has taken the case of the cancelled context
  it has returned: from then on it stays returned, the ticker case, the wake-up case and
  every \<^verbatim>\<open>asyncSync\<close> call of the loop are impossible, and no goroutine is launched. When
  \<^verbatim>\<open>Close\<close> has returned, the loop has returned and no goroutine is before the return of
  its \<^verbatim>\<open>Sync\<close> call, then and ever after, and no \<^verbatim>\<open>Sync\<close> call is made any more.
\<close>

theorem Close_returns_after_loop_and_syncs:
  assumes "run es NewTimeTickSyncInspector = Some s" and "run es' s = Some s'"
  shows "(exited s \<longrightarrow>
       exited s' \<and> length (execs s') = length (execs s) \<and>
       step SelectTicker s' = None \<and> step SelectWaitChan s' = None \<and>
       (\<forall>k. step (LoopAsyncSync k) s' = None)) \<and>
    (closer s = CloseReturned \<longrightarrow>
       exited s \<and> (\<forall>x\<in>set (execs s). \<not> before_return x) \<and>
       (\<forall>x\<in>set (execs s'). \<not> before_return x) \<and> sync_calls s' = sync_calls s)"
proof -
  from assms(1) have inv: "close_inv s" "wg_inv s"
    using reachable_invariant invariant_def by blast+
  have loop: "exited s' \<and> length (execs s') = length (execs s) \<and>
       step SelectTicker s' = None \<and> step SelectWaitChan s' = None \<and>
       (\<forall>k. step (LoopAsyncSync k) s' = None)" if ex: "exited s"
  proof -
    from inv(1) ex have "requests s = []"
      by (simp add: close_inv_def)
    from exited_run [OF assms(2) ex this] show ?thesis
      by (simp add: step_def at_select_def)
  qed
  have close: "exited s \<and> (\<forall>x\<in>set (execs s). \<not> before_return x) \<and>
       (\<forall>x\<in>set (execs s'). \<not> before_return x) \<and> sync_calls s' = sync_calls s"
    if ret: "closer s = CloseReturned"
  proof -
    from inv(1) ret have ex: "exited s" and req: "requests s = []" and "wg (inspector s) = 0"
      by (auto simp: close_inv_def)
    with inv(2) have quiet: "\<forall>x\<in>set (execs s). \<not> before_return x"
      by (simp add: wg_zero_returned)
    from quiet_run [OF assms(2) ex req quiet] ex quiet show ?thesis
      by simp
  qed
  from loop close show ?thesis by blast
qed

theorem Close_returns_after_loop_and_syncs_witness:
  "run closing NewTimeTickSyncInspector \<noteq> None \<and>
   run after_close (the (run closing NewTimeTickSyncInspector)) \<noteq> None \<and>
   exited (the (run closing NewTimeTickSyncInspector)) \<and>
   closer (the (run closing NewTimeTickSyncInspector)) = CloseReturned \<and>
   step SelectWaitChan (the (run after_close (the (run closing NewTimeTickSyncInspector)))) = None \<and>
   step (LoopAsyncSync 0) (the (run after_close (the (run closing NewTimeTickSyncInspector)))) = None \<and>
   execs (the (run closing NewTimeTickSyncInspector)) =
     [\<lparr>pchannelName = ''A'', persisted = True, pc = AtRemove False\<rparr>] \<and>
   sync_calls (the (run after_close (the (run closing NewTimeTickSyncInspector)))) = [(opA, True)]"
proof -
  have r: "run closing NewTimeTickSyncInspector = Some (the (run closing NewTimeTickSyncInspector))"
    by (simp add: closing_def example_defs run_defs)
  have r': "run after_close (the (run closing NewTimeTickSyncInspector)) =
      Some (the (run after_close (the (run closing NewTimeTickSyncInspector))))"
    by (simp add: closing_def after_close_def example_defs run_defs)
  from Close_returns_after_loop_and_syncs [OF r r'] show ?thesis
    by (simp add: closing_def after_close_def example_defs run_defs)
qed

section \<open>The launched goroutine\<close>

lemma set_pc_twice [simp]: "set_pc i c (set_pc i c' xs) = set_pc i c xs"
  by (cases "i < length xs") (simp_all add: set_pc_def list_update_beyond)

lemma pc_set_pc [simp]: "i < length xs \<Longrightarrow> pc (set_pc i c xs ! i) = c"
  by (simp add: set_pc_def)

lemma name_set_pc [simp]: "pchannelName (set_pc i c xs ! j) = pchannelName (xs ! j)"
  by (cases "j < length xs"; cases "i = j") (simp_all add: set_pc_def list_update_beyond)

lemma persisted_set_pc [simp]: "persisted (set_pc i c xs ! j) = persisted (xs ! j)"
  by (cases "j < length xs"; cases "i = j") (simp_all add: set_pc_def list_update_beyond)

lemma wg_positive:
  assumes "wg_inv s" and "i < length (execs s)" and "holds_wg (execs s ! i)"
  shows "1 \<le> wg (inspector s)"
proof -
  from assms(2,3) have "execs s ! i \<in> set (filter holds_wg (execs s))"
    by simp
  then have "filter holds_wg (execs s) \<noteq> []"
    by (metis empty_iff list.set(1))
  with assms(1) show ?thesis
    by (cases "filter holds_wg (execs s)") (simp_all add: wg_inv_def)
qed

text \<open>The deferred function of goroutine \<open>i\<close>, run to its end.\<close>

lemma run_deferred:
  assumes "\<not> crashed s" and "i < length (execs s)" and "pc (execs s ! i) = AtWgDone b"
    and "1 \<le> wg (inspector s)"
  shows "run [ExecWgDone i, ExecRemove i] s =
    Some (s\<lparr>inspector := (inspector s)
              \<lparr>wg := wg (inspector s) - 1,
               working := Remove (pchannelName (execs s ! i)) (working (inspector s))\<rparr>,
            execs := set_pc i Finished (execs s),
            crashed := b\<rparr>)"
  using assms by (simp add: step_def)

lemma step_lookup_absent:
  assumes "\<not> crashed s" and "i < length (execs s)" and "pc (execs s ! i) = AtLookup"
    and "Get (pchannelName (execs s ! i)) (operators (inspector s)) = None"
  shows "step (ExecLookup i) s = Some (s\<lparr>execs := set_pc i (AtWgDone False) (execs s)\<rparr>)"
  using assms by (simp add: step_def)

lemma step_lookup_present:
  assumes "\<not> crashed s" and "i < length (execs s)" and "pc (execs s ! i) = AtLookup"
    and "Get (pchannelName (execs s ! i)) (operators (inspector s)) = Some operator"
  shows "step (ExecLookup i) s =
    Some (s\<lparr>execs := set_pc i InSync (execs s),
            sync_calls := sync_calls s @ [(operator, persisted (execs s ! i))]\<rparr>)"
  using assms by (simp add: step_def)

text \<open>
  Claim C5. The deferred \<^verbatim>\<open>working.Remove\<close> of a goroutine ends it and leaves its channel
  name outside the set \<open>working\<close>. From its launch every goroutine runs to that step, and
  through it, whatever happens on the way: the operator is absent, the \<^verbatim>\<open>Sync\<close> call
  succeeds, fails or panics. Only in the last case the process has ended afterwards.
\<close>

theorem working_Remove_on_every_outcome:
  assumes "run es NewTimeTickSyncInspector = Some s"
  shows "(\<forall>s'. step (ExecRemove i) s = Some s' \<longrightarrow>
        pc (execs s' ! i) = Finished \<and> pchannelName (execs s ! i) \<notin> working (inspector s')) \<and>
    (\<not> crashed s \<and> i < length (execs s) \<and> pc (execs s ! i) = AtLookup \<longrightarrow>
       (\<exists>s'. run (exec_schedule i out s) s = Some s' \<and>
          pc (execs s' ! i) = Finished \<and>
          pchannelName (execs s ! i) \<notin> working (inspector s') \<and>
          working (inspector s') = working (inspector s) - {pchannelName (execs s ! i)} \<and>
          (crashed s' \<longleftrightarrow>
             out = Panicked \<and>
             Get (pchannelName (execs s ! i)) (operators (inspector s)) \<noteq> None)))"
proof -
  have removal: "pc (execs s' ! i) = Finished \<and> pchannelName (execs s ! i) \<notin> working (inspector s')"
    if "step (ExecRemove i) s = Some s'" for s'
    using that by (auto simp: step_def Remove_def split: if_splits exec_pc.splits)
  have completion: "\<exists>s'. run (exec_schedule i out s) s = Some s' \<and>
          pc (execs s' ! i) = Finished \<and>
          pchannelName (execs s ! i) \<notin> working (inspector s') \<and>
          working (inspector s') = working (inspector s) - {pchannelName (execs s ! i)} \<and>
          (crashed s' \<longleftrightarrow>
             out = Panicked \<and>
             Get (pchannelName (execs s ! i)) (operators (inspector s)) \<noteq> None)"
    if live: "\<not> crashed s" and i: "i < length (execs s)" and at: "pc (execs s ! i) = AtLookup"
  proof -
    from assms have "wg_inv s"
      using reachable_invariant invariant_def by blast
    from wg_positive [OF this i] at have wg: "1 \<le> wg (inspector s)"
      by (simp add: holds_wg_def)
    show ?thesis
    proof (cases "Get (pchannelName (execs s ! i)) (operators (inspector s))")
      case None
      let ?s1 = "s\<lparr>execs := set_pc i (AtWgDone False) (execs s)\<rparr>"
      from step_lookup_absent [OF live i at None]
      have "run (exec_schedule i out s) s = run [ExecWgDone i, ExecRemove i] ?s1"
        by (simp add: exec_schedule_def None)
      also have "\<dots> = Some (?s1\<lparr>inspector := (inspector ?s1)
              \<lparr>wg := wg (inspector ?s1) - 1,
               working := Remove (pchannelName (execs ?s1 ! i)) (working (inspector ?s1))\<rparr>,
            execs := set_pc i Finished (execs ?s1),
            crashed := False\<rparr>)"
        using live i wg by (intro run_deferred) simp_all
      finally show ?thesis using i None by (simp add: Remove_def)
    next
      case (Some operator)
      let ?s1 = "s\<lparr>execs := set_pc i InSync (execs s),
            sync_calls := sync_calls s @ [(operator, persisted (execs s ! i))]\<rparr>"
      let ?s2 = "?s1\<lparr>execs := set_pc i (AtWgDone (out = Panicked)) (execs ?s1)\<rparr>"
      from step_lookup_present [OF live i at Some] live i
      have "run (exec_schedule i out s) s = run [ExecWgDone i, ExecRemove i] ?s2"
        by (simp add: exec_schedule_def Some step_def)
      also have "\<dots> = Some (?s2\<lparr>inspector := (inspector ?s2)
              \<lparr>wg := wg (inspector ?s2) - 1,
               working := Remove (pchannelName (execs ?s2 ! i)) (working (inspector ?s2))\<rparr>,
            execs := set_pc i Finished (execs ?s2),
            crashed := (out = Panicked)\<rparr>)"
        using live i wg by (intro run_deferred) simp_all
      finally show ?thesis using i Some by (simp add: Remove_def)
    qed
  qed
  from removal completion show ?thesis by blast
qed


theorem working_Remove_on_every_outcome_witness:
  "run launched_A NewTimeTickSyncInspector \<noteq> None \<and>
   \<not> crashed (the (run launched_A NewTimeTickSyncInspector)) \<and>
   pc (execs (the (run launched_A NewTimeTickSyncInspector)) ! 0) = AtLookup \<and>
   working (inspector (the (run launched_A NewTimeTickSyncInspector))) = {''A''} \<and>
   (\<exists>s'. run (exec_schedule 0 Panicked (the (run launched_A NewTimeTickSyncInspector)))
            (the (run launched_A NewTimeTickSyncInspector)) = Some s' \<and>
         pc (execs s' ! 0) = Finished \<and> working (inspector s') = {} \<and> crashed s') \<and>
   run sync_returned_A NewTimeTickSyncInspector \<noteq> None \<and>
   (\<exists>s'. step (ExecRemove 0) (the (run sync_returned_A NewTimeTickSyncInspector)) = Some s' \<and>
         pc (execs s' ! 0) = Finished \<and> ''A'' \<notin> working (inspector s'))"
proof -
  have r: "run launched_A NewTimeTickSyncInspector =
      Some (the (run launched_A NewTimeTickSyncInspector))"
    by (simp add: launched_A_def sync_returned_A_def exec_schedule_def example_defs run_defs)
  have r': "run sync_returned_A NewTimeTickSyncInspector =
      Some (the (run sync_returned_A NewTimeTickSyncInspector))"
    by (simp add: launched_A_def sync_returned_A_def exec_schedule_def example_defs run_defs)
  from working_Remove_on_every_outcome [OF r, of 0 Panicked]
    working_Remove_on_every_outcome [OF r', of 0 Succeeded]
  show ?thesis
    by (simp add: launched_A_def sync_returned_A_def exec_schedule_def example_defs run_defs)
qed

text \<open>
  Claim C7. A goroutine that finds no operator under its channel name makes no \<^verbatim>\<open>Sync\<close>
  call and does not panic: it goes on to its deferred function, not unwinding, and ends
  with the \<^verbatim>\<open>Sync\<close> calls and the process as they were.
\<close>

theorem absent_operator_is_skipped:
  assumes "run es NewTimeTickSyncInspector = Some s" and "\<not> crashed s"
    and "i < length (execs s)" and "pc (execs s ! i) = AtLookup"
    and "Get (pchannelName (execs s ! i)) (operators (inspector s)) = None"
  shows "\<exists>s1 s'. step (ExecLookup i) s = Some s1 \<and>
      pc (execs s1 ! i) = AtWgDone False \<and> sync_calls s1 = sync_calls s \<and> \<not> crashed s1 \<and>
      run [ExecWgDone i, ExecRemove i] s1 = Some s' \<and>
      pc (execs s' ! i) = Finished \<and> sync_calls s' = sync_calls s \<and> \<not> crashed s'"
proof -
  let ?s1 = "s\<lparr>execs := set_pc i (AtWgDone False) (execs s)\<rparr>"
  from assms(1) have "wg_inv s"
    using reachable_invariant invariant_def by blast
  from wg_positive [OF this assms(3)] assms(4) have wg: "1 \<le> wg (inspector s)"
    by (simp add: holds_wg_def)
  have lookup: "step (ExecLookup i) s = Some ?s1"
    using assms(2-5) by (rule step_lookup_absent)
  have "run [ExecWgDone i, ExecRemove i] ?s1 =
      Some (?s1\<lparr>inspector := (inspector ?s1)
              \<lparr>wg := wg (inspector ?s1) - 1,
               working := Remove (pchannelName (execs ?s1 ! i)) (working (inspector ?s1))\<rparr>,
            execs := set_pc i Finished (execs ?s1),
            crashed := False\<rparr>)"
    using assms(2,3) wg by (intro run_deferred) simp_all
  with lookup assms(2,3) show ?thesis by simp
qed

theorem absent_operator_is_skipped_witness:
  "run unregistered_before_lookup NewTimeTickSyncInspector \<noteq> None \<and>
   \<not> crashed (the (run unregistered_before_lookup NewTimeTickSyncInspector)) \<and>
   pc (execs (the (run unregistered_before_lookup NewTimeTickSyncInspector)) ! 0) = AtLookup \<and>
   Get ''A'' (operators (inspector (the (run unregistered_before_lookup NewTimeTickSyncInspector))))
     = None \<and>
   (\<exists>s'. run [ExecLookup 0, ExecWgDone 0, ExecRemove 0]
            (the (run unregistered_before_lookup NewTimeTickSyncInspector)) = Some s' \<and>
         pc (execs s' ! 0) = Finished \<and> sync_calls s' = [] \<and> \<not> crashed s')"
proof -
  have r: "run unregistered_before_lookup NewTimeTickSyncInspector =
      Some (the (run unregistered_before_lookup NewTimeTickSyncInspector))"
    by (simp add: launched_A_def unregistered_before_lookup_def example_defs run_defs)
  have "\<not> crashed (the (run unregistered_before_lookup NewTimeTickSyncInspector))"
    and "0 < length (execs (the (run unregistered_before_lookup NewTimeTickSyncInspector)))"
    and "pc (execs (the (run unregistered_before_lookup NewTimeTickSyncInspector)) ! 0) = AtLookup"
    and "Get (pchannelName (execs (the (run unregistered_before_lookup NewTimeTickSyncInspector)) ! 0))
      (operators (inspector (the (run unregistered_before_lookup NewTimeTickSyncInspector)))) = None"
    by (simp_all add: launched_A_def unregistered_before_lookup_def example_defs run_defs)
  from absent_operator_is_skipped [OF r this]
  show ?thesis
    by (simp add: launched_A_def unregistered_before_lookup_def example_defs run_defs)
qed

section \<open>Triggers\<close>

lemma run_append:
  "run (es @ es') s = (case run es s of None \<Rightarrow> None | Some s1 \<Rightarrow> run es' s1)"
  by (induction es arbitrary: s) (auto split: option.splits)

lemma step_trigger:
  "\<not> crashed s \<Longrightarrow>
     step (CallTriggerSync c p) s = Some (s\<lparr>inspector := TriggerSync c p (inspector s)\<rparr>)"
  by (simp add: step_def)

lemma step_waitchan:
  assumes "\<not> crashed s" and "at_select s" and "syncNotifier (inspector s) \<noteq> []"
  shows "step SelectWaitChan s =
    Some (s\<lparr>inspector := (inspector s)\<lparr>syncNotifier := []\<rparr>,
            requests := map (\<lambda>sig. (Name (fst sig), snd sig)) (syncNotifier (inspector s))\<rparr>)"
  using assms by (simp add: step_def WaitChan_ready_def notifier_Get_def)

lemma step_launch:
  assumes "\<not> crashed s" and "\<not> exited s" and "k < length (requests s)"
    and "fst (requests s ! k) \<notin> working (inspector s)"
  shows "step (LoopAsyncSync k) s =
    Some (s\<lparr>requests := take k (requests s) @ drop (Suc k) (requests s),
            inspector := (inspector s)
              \<lparr>working := insert (fst (requests s ! k)) (working (inspector s)),
               wg := wg (inspector s) + 1\<rparr>,
            execs := execs s @
              [\<lparr>pchannelName = fst (requests s ! k), persisted = snd (requests s ! k),
                pc = AtLookup\<rparr>]\<rparr>)"
  using assms by (simp add: step_def asyncSync_cases)

text \<open>The loop wakes up, drains the signals and dispatches the one at position \<open>k\<close>.\<close>

lemma run_drain_launch:
  assumes "\<not> crashed s" and "at_select s" and "k < length (syncNotifier (inspector s))"
    and "Name (fst (syncNotifier (inspector s) ! k)) \<notin> working (inspector s)"
  shows "run [SelectWaitChan, LoopAsyncSync k] s =
    Some (s\<lparr>requests :=
              take k (map (\<lambda>sig. (Name (fst sig), snd sig)) (syncNotifier (inspector s))) @
              drop (Suc k) (map (\<lambda>sig. (Name (fst sig), snd sig)) (syncNotifier (inspector s))),
            inspector := (inspector s)
              \<lparr>syncNotifier := [],
               working := insert (Name (fst (syncNotifier (inspector s) ! k))) (working (inspector s)),
               wg := wg (inspector s) + 1\<rparr>,
            execs := execs s @
              [\<lparr>pchannelName = Name (fst (syncNotifier (inspector s) ! k)),
                persisted = snd (syncNotifier (inspector s) ! k), pc = AtLookup\<rparr>]\<rparr>)"
proof -
  let ?s1 = "s\<lparr>inspector := (inspector s)\<lparr>syncNotifier := []\<rparr>,
            requests := map (\<lambda>sig. (Name (fst sig), snd sig)) (syncNotifier (inspector s))\<rparr>"
  from assms(3) have "syncNotifier (inspector s) \<noteq> []" by auto
  with assms(1,2) have "step SelectWaitChan s = Some ?s1"
    by (rule step_waitchan)
  moreover have "step (LoopAsyncSync k) ?s1 =
    Some (?s1\<lparr>requests := take k (requests ?s1) @ drop (Suc k) (requests ?s1),
            inspector := (inspector ?s1)
              \<lparr>working := insert (fst (requests ?s1 ! k)) (working (inspector ?s1)),
               wg := wg (inspector ?s1) + 1\<rparr>,
            execs := execs ?s1 @
              [\<lparr>pchannelName = fst (requests ?s1 ! k), persisted = snd (requests ?s1 ! k),
                pc = AtLookup\<rparr>]\<rparr>)"
    using assms by (intro step_launch) (simp_all add: at_select_def)
  ultimately show ?thesis using assms(3) by simp
qed

lemma map_of_AddAndNotify:
  "map_of (AddAndNotify c p n) c =
     Some ((case map_of n c of None \<Rightarrow> False | Some old \<Rightarrow> old) \<or> p)"
proof (cases "map_of n c")
  case None
  then show ?thesis by (simp add: AddAndNotify_def map_add_def)
next
  case (Some old)
  have "map_of n c = Some old \<Longrightarrow>
      map_of (map (\<lambda>cq. if fst cq = c then (c, snd cq \<or> p) else cq) n) c = Some (old \<or> p)"
    by (induction n) (auto split: if_splits)
  with Some show ?thesis by (simp add: AddAndNotify_def)
qed

lemma AddAndNotify_position:
  "\<exists>k<length (AddAndNotify c p n). fst (AddAndNotify c p n ! k) = c"
proof -
  from map_of_AddAndNotify [of c p n] obtain q where "map_of (AddAndNotify c p n) c = Some q"
    by blast
  then have "(c, q) \<in> set (AddAndNotify c p n)"
    by (rule map_of_SomeD)
  then obtain k where "k < length (AddAndNotify c p n)" and "AddAndNotify c p n ! k = (c, q)"
    by (auto simp: in_set_conv_nth)
  then show ?thesis by auto
qed

lemma AddAndNotify_fresh:
  assumes "\<forall>e\<in>set n. Name (fst e) \<noteq> Name c"
  shows "AddAndNotify c p2 (AddAndNotify c p1 n) = n @ [(c, p1 \<or> p2)]"
proof -
  from assms have absent: "c \<notin> fst ` set n" by auto
  then have none: "map_of n c = None"
    by (simp add: map_of_eq_None_iff)
  then have first: "AddAndNotify c p1 n = n @ [(c, p1)]"
    by (simp add: AddAndNotify_def)
  from none have "map_of (n @ [(c, p1)]) c = Some p1"
    by (simp add: map_add_def)
  moreover from absent have "map (\<lambda>cq. if fst cq = c then (c, snd cq \<or> p2) else cq) n = n"
    by (induction n) auto
  ultimately show ?thesis using first by (simp add: AddAndNotify_def)
qed


lemma set_pc_append_last [simp]:
  "set_pc (length xs) c (xs @ [x]) = xs @ [x\<lparr>pc := c\<rparr>]"
  by (simp add: set_pc_def)

text \<open>
  Claim C10. \<^verbatim>\<open>TriggerSync\<close> does not read the registry: its effect on the inspector is
  the same whatever the registry holds, and the call returns without a panic. For a
  channel whose name has no operator and is not in flight, the signal is drained, its
  request launches a goroutine, and that goroutine ends without a \<^verbatim>\<open>Sync\<close> call and
  without a panic.
\<close>

theorem TriggerSync_ignores_registry:
  assumes "run es NewTimeTickSyncInspector = Some s" and "\<not> crashed s" and "at_select s"
    and "Get (Name c) (operators (inspector s)) = None"
    and "Name c \<notin> working (inspector s)"
  shows "(\<forall>i m. TriggerSync c p (i\<lparr>operators := m\<rparr>) = (TriggerSync c p i)\<lparr>operators := m\<rparr>) \<and>
    step (CallTriggerSync c p) s = Some (s\<lparr>inspector := TriggerSync c p (inspector s)\<rparr>) \<and>
    (\<exists>k s'. run [CallTriggerSync c p, SelectWaitChan, LoopAsyncSync k,
                  ExecLookup (length (execs s)), ExecWgDone (length (execs s)),
                  ExecRemove (length (execs s))] s = Some s' \<and>
       length (execs s') = Suc (length (execs s)) \<and>
       pchannelName (execs s' ! length (execs s)) = Name c \<and>
       pc (execs s' ! length (execs s)) = Finished \<and>
       sync_calls s' = sync_calls s \<and> \<not> crashed s')"
proof -
  let ?n = "length (execs s)"
  let ?sig = "AddAndNotify c p (syncNotifier (inspector s))"
  let ?s1 = "s\<lparr>inspector := TriggerSync c p (inspector s)\<rparr>"
  from assms(1) have "wg_inv s"
    using reachable_invariant invariant_def by blast
  then have wg: "0 \<le> wg (inspector s)"
    by (simp add: wg_inv_def)
  obtain k where k: "k < length ?sig" and at_k: "fst (?sig ! k) = c"
    using AddAndNotify_position by blast
  let ?x = "\<lparr>pchannelName = Name c, persisted = snd (?sig ! k), pc = AtLookup\<rparr>"
  let ?R = "map (\<lambda>sig. (Name (fst sig), snd sig)) ?sig"
  let ?s3 = "?s1\<lparr>requests := take k ?R @ drop (Suc k) ?R,
            inspector := (inspector ?s1)
              \<lparr>syncNotifier := [],
               working := insert (Name c) (working (inspector s)),
               wg := wg (inspector s) + 1\<rparr>,
            execs := execs s @ [?x]\<rparr>"
  let ?s4 = "?s3\<lparr>execs := set_pc ?n (AtWgDone False) (execs ?s3)\<rparr>"
  have trig: "step (CallTriggerSync c p) s = Some ?s1"
    using assms(2) by (rule step_trigger)
  have "run [SelectWaitChan, LoopAsyncSync k] ?s1 = Some ?s3"
    using assms(2,3,5) k at_k
    by (subst run_drain_launch) (simp_all add: at_select_def TriggerSync_def)
  moreover have "step (ExecLookup ?n) ?s3 = Some ?s4"
    using assms(2,4) by (intro step_lookup_absent) (simp_all add: TriggerSync_def)
  moreover have "run [ExecWgDone ?n, ExecRemove ?n] ?s4 =
      Some (?s4\<lparr>inspector := (inspector ?s4)
              \<lparr>wg := wg (inspector ?s4) - 1,
               working := Remove (pchannelName (execs ?s4 ! ?n)) (working (inspector ?s4))\<rparr>,
            execs := set_pc ?n Finished (execs ?s4),
            crashed := False\<rparr>)"
    using assms(2) wg by (intro run_deferred) simp_all
  ultimately have "\<exists>s'. run ([CallTriggerSync c p] @ [SelectWaitChan, LoopAsyncSync k] @
        [ExecLookup ?n] @ [ExecWgDone ?n, ExecRemove ?n]) s = Some s' \<and>
       length (execs s') = Suc ?n \<and>
       pchannelName (execs s' ! ?n) = Name c \<and>
       pc (execs s' ! ?n) = Finished \<and>
       sync_calls s' = sync_calls s \<and> \<not> crashed s'"
    using trig assms(2) unfolding run_append by simp
  then have "\<exists>k s'. run [CallTriggerSync c p, SelectWaitChan, LoopAsyncSync k,
                  ExecLookup ?n, ExecWgDone ?n, ExecRemove ?n] s = Some s' \<and>
       length (execs s') = Suc ?n \<and>
       pchannelName (execs s' ! ?n) = Name c \<and>
       pc (execs s' ! ?n) = Finished \<and>
       sync_calls s' = sync_calls s \<and> \<not> crashed s'"
    by auto
  moreover have "\<forall>i m. TriggerSync c p (i\<lparr>operators := m\<rparr>) = (TriggerSync c p i)\<lparr>operators := m\<rparr>"
    by (simp add: TriggerSync_def)
  ultimately show ?thesis using trig by blast
qed


theorem TriggerSync_ignores_registry_witness:
  "run only_B_registered NewTimeTickSyncInspector \<noteq> None \<and>
   \<not> crashed (the (run only_B_registered NewTimeTickSyncInspector)) \<and>
   at_select (the (run only_B_registered NewTimeTickSyncInspector)) \<and>
   Get (Name chA) (operators (inspector (the (run only_B_registered NewTimeTickSyncInspector)))) = None \<and>
   Name chA \<notin> working (inspector (the (run only_B_registered NewTimeTickSyncInspector))) \<and>
   (\<exists>s'. run trigger_unregistered_A (the (run only_B_registered NewTimeTickSyncInspector)) = Some s' \<and>
      execs s' = [\<lparr>pchannelName = ''A'', persisted = True, pc = Finished\<rparr>] \<and>
      sync_calls s' = [] \<and> \<not> crashed s')"
proof -
  have r: "run only_B_registered NewTimeTickSyncInspector =
      Some (the (run only_B_registered NewTimeTickSyncInspector))"
    by (simp add: only_B_registered_def example_defs run_defs)
  have "\<not> crashed (the (run only_B_registered NewTimeTickSyncInspector))"
    and "at_select (the (run only_B_registered NewTimeTickSyncInspector))"
    and "Get (Name chA) (operators (inspector (the (run only_B_registered NewTimeTickSyncInspector)))) = None"
    and "Name chA \<notin> working (inspector (the (run only_B_registered NewTimeTickSyncInspector)))"
    by (simp_all add: only_B_registered_def example_defs run_defs)
  from TriggerSync_ignores_registry [OF r this, of True]
  show ?thesis
    by (simp add: only_B_registered_def trigger_unregistered_A_def example_defs run_defs)
qed

text \<open>
  Claim C2. Two calls \<^verbatim>\<open>TriggerSync(C, p1)\<close>, \<^verbatim>\<open>TriggerSync(C, p2)\<close> leave one pending signal
  for \<open>C\<close> whose flag is the disjunction of \<open>p1\<close>, \<open>p2\<close> and the flag that was pending
  before. When no signal of a channel of that name was pending, the drain that follows
  yields exactly one request for the name of \<open>C\<close>, with the flag \<open>p1 \<or> p2\<close>; and when the
  operator of \<open>C\<close> is registered and \<open>C\<close> is not in flight, dispatching that request makes
  exactly one \<^verbatim>\<open>Sync\<close> call, with the flag \<open>p1 \<or> p2\<close>, and leaves no request for \<open>C\<close>.
\<close>

theorem triggers_merge_by_or:
  assumes "\<not> crashed s" and "at_select s"
    and "\<forall>e\<in>set (syncNotifier (inspector s)). Name (fst e) \<noteq> Name c"
  shows "(\<forall>n. map_of (AddAndNotify c p2 (AddAndNotify c p1 n)) c =
        Some ((case map_of n c of None \<Rightarrow> False | Some old \<Rightarrow> old) \<or> p1 \<or> p2)) \<and>
    (\<exists>s'. run [CallTriggerSync c p1, CallTriggerSync c p2, SelectWaitChan] s = Some s' \<and>
       filter (\<lambda>r. fst r = Name c) (requests s') = [(Name c, p1 \<or> p2)] \<and>
       syncNotifier (inspector s') = []) \<and>
    (\<forall>operator. Get (Name c) (operators (inspector s)) = Some operator \<and>
       Name c \<notin> working (inspector s) \<longrightarrow>
       (\<exists>s'. run [CallTriggerSync c p1, CallTriggerSync c p2, SelectWaitChan,
                  LoopAsyncSync (length (syncNotifier (inspector s))),
                  ExecLookup (length (execs s))] s = Some s' \<and>
          sync_calls s' = sync_calls s @ [(operator, p1 \<or> p2)] \<and>
          filter (\<lambda>r. fst r = Name c) (requests s') = []))"
proof -
  let ?pending = "syncNotifier (inspector s)"
  let ?k = "length ?pending"
  let ?n = "length (execs s)"
  let ?f = "\<lambda>sig::'a PChannelInfo \<times> bool. (Name (fst sig), snd sig)"
  let ?s2 = "s\<lparr>inspector := (inspector s)\<lparr>syncNotifier := ?pending @ [(c, p1 \<or> p2)]\<rparr>\<rparr>"
  have merge: "\<forall>n. map_of (AddAndNotify c p2 (AddAndNotify c p1 n)) c =
        Some ((case map_of n c of None \<Rightarrow> False | Some old \<Rightarrow> old) \<or> p1 \<or> p2)"
    by (simp add: map_of_AddAndNotify disj_assoc)
  have others: "filter (\<lambda>r. fst r = Name c) (map ?f ?pending) = []"
    using assms(3) by (auto simp: filter_empty_conv)
  have trig: "run [CallTriggerSync c p1, CallTriggerSync c p2] s = Some ?s2"
    using assms(1,3) by (simp add: step_trigger TriggerSync_def AddAndNotify_fresh)
  have sel: "at_select ?s2" "\<not> crashed ?s2"
    using assms(1,2) by (simp_all add: at_select_def)
  have drain: "step SelectWaitChan ?s2 =
      Some (?s2\<lparr>inspector := (inspector ?s2)\<lparr>syncNotifier := []\<rparr>,
            requests := map ?f (syncNotifier (inspector ?s2))\<rparr>)"
    using sel by (intro step_waitchan) simp_all
  have first: "\<exists>s'. run [CallTriggerSync c p1, CallTriggerSync c p2, SelectWaitChan] s = Some s' \<and>
       filter (\<lambda>r. fst r = Name c) (requests s') = [(Name c, p1 \<or> p2)] \<and>
       syncNotifier (inspector s') = []"
    using trig drain others
      run_append [of "[CallTriggerSync c p1, CallTriggerSync c p2]" "[SelectWaitChan]" s]
    by simp
  have second: "\<exists>s'. run [CallTriggerSync c p1, CallTriggerSync c p2, SelectWaitChan,
                  LoopAsyncSync ?k, ExecLookup ?n] s = Some s' \<and>
          sync_calls s' = sync_calls s @ [(operator, p1 \<or> p2)] \<and>
          filter (\<lambda>r. fst r = Name c) (requests s') = []"
    if reg: "Get (Name c) (operators (inspector s)) = Some operator"
      and free: "Name c \<notin> working (inspector s)" for operator
  proof -
    let ?R = "map ?f (syncNotifier (inspector ?s2))"
    let ?x = "\<lparr>pchannelName = Name c, persisted = p1 \<or> p2, pc = AtLookup\<rparr>"
    let ?s3 = "?s2\<lparr>requests := take ?k ?R @ drop (Suc ?k) ?R,
            inspector := (inspector ?s2)
              \<lparr>syncNotifier := [],
               working := insert (Name c) (working (inspector s)),
               wg := wg (inspector s) + 1\<rparr>,
            execs := execs s @ [?x]\<rparr>"
    have "run [SelectWaitChan, LoopAsyncSync ?k] ?s2 = Some ?s3"
      using sel free by (subst run_drain_launch) simp_all
    moreover have "step (ExecLookup ?n) ?s3 =
        Some (?s3\<lparr>execs := set_pc ?n InSync (execs ?s3),
            sync_calls := sync_calls ?s3 @ [(operator, persisted (execs ?s3 ! ?n))]\<rparr>)"
      using assms(1) reg by (intro step_lookup_present) simp_all
    ultimately show ?thesis
      using trig others
        run_append [of "[CallTriggerSync c p1, CallTriggerSync c p2]"
          "[SelectWaitChan, LoopAsyncSync ?k] @ [ExecLookup ?n]" s]
        run_append [of "[SelectWaitChan, LoopAsyncSync ?k]" "[ExecLookup ?n]" ?s2]
      by simp
  qed
  from merge first second show ?thesis by blast
qed

theorem triggers_merge_by_or_witness:
  "run registered_AB NewTimeTickSyncInspector \<noteq> None \<and>
   \<not> crashed (the (run registered_AB NewTimeTickSyncInspector)) \<and>
   at_select (the (run registered_AB NewTimeTickSyncInspector)) \<and>
   syncNotifier (inspector (the (run registered_AB NewTimeTickSyncInspector))) = [] \<and>
   Get (Name chA) (operators (inspector (the (run registered_AB NewTimeTickSyncInspector)))) = Some opA \<and>
   Name chA \<notin> working (inspector (the (run registered_AB NewTimeTickSyncInspector))) \<and>
   (\<exists>s'. run two_triggers_A (the (run registered_AB NewTimeTickSyncInspector)) = Some s' \<and>
      sync_calls s' = [(opA, True)] \<and> requests s' = [] \<and>
      syncNotifier (inspector s') = [])"
proof -
  have "\<not> crashed (the (run registered_AB NewTimeTickSyncInspector))"
    and "at_select (the (run registered_AB NewTimeTickSyncInspector))"
    and "\<forall>e\<in>set (syncNotifier (inspector (the (run registered_AB NewTimeTickSyncInspector)))).
      Name (fst e) \<noteq> Name chA"
    by (simp_all add: registered_AB_def example_defs run_defs)
  from triggers_merge_by_or [OF this, of True False]
  show ?thesis
    by (simp add: registered_AB_def two_triggers_A_def example_defs run_defs)
qed

section \<open>The periodic sweep\<close>

lemma run_launch_all:
  assumes "\<not> crashed s" and "\<not> exited s" and "requests s = map (\<lambda>name. (name, p)) ns"
    and "distinct ns" and "\<forall>name\<in>set ns. name \<notin> working (inspector s)"
  shows "run (replicate (length ns) (LoopAsyncSync 0)) s =
    Some (s\<lparr>requests := [],
            inspector := (inspector s)
              \<lparr>working := working (inspector s) \<union> set ns,
               wg := wg (inspector s) + int (length ns)\<rparr>,
            execs := execs s @ map (launched p AtLookup) ns\<rparr>)"
  using assms
proof (induction ns arbitrary: s)
  case Nil
  then show ?case by simp
next
  case (Cons name ns)
  let ?s1 = "s\<lparr>requests := take 0 (requests s) @ drop (Suc 0) (requests s),
            inspector := (inspector s)
              \<lparr>working := insert (fst (requests s ! 0)) (working (inspector s)),
               wg := wg (inspector s) + 1\<rparr>,
            execs := execs s @
              [\<lparr>pchannelName = fst (requests s ! 0), persisted = snd (requests s ! 0),
                pc = AtLookup\<rparr>]\<rparr>"
  have first: "step (LoopAsyncSync 0) s = Some ?s1"
    using Cons.prems by (intro step_launch) simp_all
  have "run (replicate (length ns) (LoopAsyncSync 0)) ?s1 =
    Some (?s1\<lparr>requests := [],
            inspector := (inspector ?s1)
              \<lparr>working := working (inspector ?s1) \<union> set ns,
               wg := wg (inspector ?s1) + int (length ns)\<rparr>,
            execs := execs ?s1 @ map (launched p AtLookup) ns\<rparr>)"
    using Cons.prems by (intro Cons.IH) auto
  with first Cons.prems(3) show ?case
    by (simp add: launched_def)
qed

lemma run_lookup_all:
  assumes "\<not> crashed s" and "execs s = xs @ map (launched p AtLookup) ns"
    and "\<forall>name\<in>set ns. Get name (operators (inspector s)) \<noteq> None"
  shows "run (map ExecLookup [length xs ..< length xs + length ns]) s =
    Some (s\<lparr>execs := xs @ map (launched p InSync) ns,
            sync_calls := sync_calls s @
              map (\<lambda>name. (the (Get name (operators (inspector s))), p)) ns\<rparr>)"
  using assms
proof (induction ns arbitrary: s xs)
  case Nil
  then show ?case by simp
next
  case (Cons name ns)
  from Cons.prems(3) obtain operator
    where found: "Get name (operators (inspector s)) = Some operator"
    by auto
  let ?s1 = "s\<lparr>execs := set_pc (length xs) InSync (execs s),
            sync_calls := sync_calls s @ [(operator, persisted (execs s ! length xs))]\<rparr>"
  have first: "step (ExecLookup (length xs)) s = Some ?s1"
    using Cons.prems(1,2) found by (intro step_lookup_present) (simp_all add: launched_def)
  have execs1: "execs ?s1 = (xs @ [launched p InSync name]) @ map (launched p AtLookup) ns"
    using Cons.prems(2) by (simp add: set_pc_def launched_def)
  have "run (map ExecLookup [length (xs @ [launched p InSync name]) ..<
        length (xs @ [launched p InSync name]) + length ns]) ?s1 =
    Some (?s1\<lparr>execs := (xs @ [launched p InSync name]) @ map (launched p InSync) ns,
            sync_calls := sync_calls ?s1 @
              map (\<lambda>name. (the (Get name (operators (inspector ?s1))), p)) ns\<rparr>)"
    using Cons.prems(1,3) execs1 by (intro Cons.IH) simp_all
  moreover have "[length xs ..< length xs + length (name # ns)] =
      length xs # [Suc (length xs) ..< Suc (length xs) + length ns]"
    using upt_rec [of "length xs" "length xs + length (name # ns)"] by simp
  ultimately show ?case
    using first found Cons.prems(2) by (simp add: launched_def)
qed


lemma Get_keys:
  assumes "distinct (map fst m)"
  shows "map (\<lambda>name. (the (Get name m), p)) (RangeKeys m) = map (\<lambda>kv. (snd kv, p)) m"
proof -
  have "the (Get (fst kv) m) = snd kv" if "kv \<in> set m" for kv
    using assms that by (cases kv) (simp add: Get_def)
  then show ?thesis
    by (simp add: RangeKeys_def)
qed

text \<open>
  Claim C6. When the loop takes the ticker case, its requests are one
  \<^verbatim>\<open>asyncSync(name, false)\<close> for every name of the registry, each name once. When none of
  these names is in flight, the requests launch one goroutine each, and the lookups of
  these goroutines make exactly one call \<^verbatim>\<open>Sync(_, false)\<close> on every registered operator.
\<close>

theorem ticker_requests_every_registered_channel:
  assumes "run es NewTimeTickSyncInspector = Some s" and "\<not> crashed s" and "at_select s"
  shows "step SelectTicker s =
      Some (s\<lparr>requests := map (\<lambda>name. (name, False)) (RangeKeys (operators (inspector s)))\<rparr>) \<and>
    distinct (RangeKeys (operators (inspector s))) \<and>
    set (RangeKeys (operators (inspector s))) =
      {name. Get name (operators (inspector s)) \<noteq> None} \<and>
    ((\<forall>name\<in>set (RangeKeys (operators (inspector s))). name \<notin> working (inspector s)) \<longrightarrow>
       (\<exists>s'. run (tick_schedule s) s = Some s' \<and>
          sync_calls s' =
            sync_calls s @ map (\<lambda>kv. (snd kv, False)) (operators (inspector s)) \<and>
          requests s' = []))"
proof -
  let ?ops = "operators (inspector s)"
  let ?ns = "RangeKeys ?ops"
  let ?s1 = "s\<lparr>requests := map (\<lambda>name. (name, False)) ?ns\<rparr>"
  from assms(1) have "reg_inv s"
    using reachable_invariant invariant_def by blast
  then have dist: "distinct (map fst ?ops)"
    by (simp add: reg_inv_def)
  then have dist_keys: "distinct ?ns"
    by (simp add: RangeKeys_def)
  have keys: "set ?ns = {name. Get name ?ops \<noteq> None}"
    by (auto simp: RangeKeys_def Get_def map_of_eq_None_iff)
  have tick: "step SelectTicker s = Some ?s1"
    using assms(2,3) by (simp add: step_def)
  have sweep: "\<exists>s'. run (tick_schedule s) s = Some s' \<and>
          sync_calls s' = sync_calls s @ map (\<lambda>kv. (snd kv, False)) ?ops \<and>
          requests s' = []"
    if idle: "\<forall>name\<in>set ?ns. name \<notin> working (inspector s)"
  proof -
    let ?s2 = "?s1\<lparr>requests := [],
            inspector := (inspector ?s1)
              \<lparr>working := working (inspector ?s1) \<union> set ?ns,
               wg := wg (inspector ?s1) + int (length ?ns)\<rparr>,
            execs := execs ?s1 @ map (launched False AtLookup) ?ns\<rparr>"
    have launch: "run (replicate (length ?ns) (LoopAsyncSync 0)) ?s1 = Some ?s2"
      using assms(2,3) dist_keys idle by (intro run_launch_all) (simp_all add: at_select_def)
    let ?s3 = "?s2\<lparr>execs := execs s @ map (launched False InSync) ?ns,
            sync_calls := sync_calls ?s2 @
              map (\<lambda>name. (the (Get name (operators (inspector ?s2))), False)) ?ns\<rparr>"
    have look: "run (map ExecLookup [length (execs s) ..< length (execs s) + length ?ns]) ?s2 =
        Some ?s3"
      using assms(2) keys by (intro run_lookup_all) simp_all
    have sched: "tick_schedule s =
        [SelectTicker] @ replicate (length ?ns) (LoopAsyncSync 0) @
        map ExecLookup [length (execs s) ..< length (execs s) + length ?ns]"
      by (simp add: tick_schedule_def RangeKeys_def)
    have "run (tick_schedule s) s = Some ?s3"
      unfolding sched run_append using tick launch look by simp
    moreover have "sync_calls ?s3 = sync_calls s @ map (\<lambda>kv. (snd kv, False)) ?ops"
      using Get_keys [OF dist, of False] by simp
    moreover have "requests ?s3 = []"
      by simp
    ultimately show ?thesis by blast
  qed
  from tick dist_keys keys sweep show ?thesis by blast
qed


theorem ticker_requests_every_registered_channel_witness:
  "run registered_AB NewTimeTickSyncInspector \<noteq> None \<and>
   \<not> crashed (the (run registered_AB NewTimeTickSyncInspector)) \<and>
   at_select (the (run registered_AB NewTimeTickSyncInspector)) \<and>
   working (inspector (the (run registered_AB NewTimeTickSyncInspector))) = {} \<and>
   step SelectTicker (the (run registered_AB NewTimeTickSyncInspector)) =
     Some ((the (run registered_AB NewTimeTickSyncInspector))
             \<lparr>requests := [(''A'', False), (''B'', False)]\<rparr>) \<and>
   tick_schedule (the (run registered_AB NewTimeTickSyncInspector)) =
     [SelectTicker, LoopAsyncSync 0, LoopAsyncSync 0, ExecLookup 0, ExecLookup 1] \<and>
   (\<exists>s'. run (tick_schedule (the (run registered_AB NewTimeTickSyncInspector)))
            (the (run registered_AB NewTimeTickSyncInspector)) = Some s' \<and>
      sync_calls s' = [(opA, False), (opB, False)] \<and> requests s' = [])"
proof -
  have r: "run registered_AB NewTimeTickSyncInspector =
      Some (the (run registered_AB NewTimeTickSyncInspector))"
    by (simp add: registered_AB_def example_defs run_defs)
  have "\<not> crashed (the (run registered_AB NewTimeTickSyncInspector))"
    and "at_select (the (run registered_AB NewTimeTickSyncInspector))"
    by (simp_all add: registered_AB_def example_defs run_defs)
  from ticker_requests_every_registered_channel [OF r this]
  show ?thesis
    by (simp add: registered_AB_def tick_schedule_def example_defs run_defs)
qed

end
